theory Spec2Isabelle
  imports Main "HOL-Library.Word" "HOL-Library.Multiset"
begin

unbundle bit_operations_syntax

section \<open>Bytes, panics, slices and the store\<close>

text \<open>
  A Go \<open>byte\<close> is an unsigned 8-bit integer. Go's \<open>int\<close> (the type of \<open>len\<close> and of
  every index in \<open>frames.go\<close>) is modelled as an unbounded \<open>int\<close>: all the values the
  package computes are a slice length plus or minus a small constant, far from the
  64-bit bounds.
\<close>

type_synonym byte = "8 word"

text \<open>The two run-time panics that indexing and slicing can raise.\<close>

datatype panic = IndexOutOfRange | SliceBoundsOutOfRange

text \<open>
  A computation that may panic returns \<open>Inl\<close> of the panic or \<open>Inr\<close> of its value;
  \<open>pbind m k\<close> runs \<open>m\<close> and, unless it panicked, continues with \<open>k\<close>.
\<close>

definition pbind :: "panic + 'a \<Rightarrow> ('a \<Rightarrow> panic + 'b) \<Rightarrow> panic + 'b" where
  "pbind m k = (case m of Inl e \<Rightarrow> Inl e | Inr x \<Rightarrow> k x)"

text \<open>
  A slice that is only read through \<open>len(f)\<close> and \<open>f[i]\<close> is represented by the list of
  its visible bytes. \<open>index f i\<close> is the expression \<open>f[i]\<close> with Go's bounds check.
\<close>

definition index :: "byte list \<Rightarrow> int \<Rightarrow> panic + byte" where
  "index f i = (if 0 \<le> i \<and> i < int (length f) then Inr (f ! nat i) else Inl IndexOutOfRange)"

text \<open>
  The functions that allocate, copy or re-slice work on an explicit store: the list of
  all backing arrays allocated so far, a backing array being named by its position in
  the list. A slice value is Go's slice header: the backing array, the offset of the
  slice's first element in it, the length and the capacity.
\<close>

type_synonym store = "byte list list"

record slice =
  s_arr :: nat
  s_off :: nat
  s_len :: nat
  s_cap :: nat

definition nil_slice :: slice where
  "nil_slice = \<lparr>s_arr = 0, s_off = 0, s_len = 0, s_cap = 0\<rparr>"

text \<open>A slice header is well formed in a store when its window lies inside its array.\<close>

definition valid_slice :: "store \<Rightarrow> slice \<Rightarrow> bool" where
  "valid_slice st s =
     (s_len s \<le> s_cap s \<and>
      (s_cap s = 0 \<or> (s_arr s < length st \<and> s_off s + s_cap s \<le> length (st ! s_arr s))))"

text \<open>The visible bytes of a slice: elements \<open>0 .. len-1\<close>.\<close>

definition slice_bytes :: "store \<Rightarrow> slice \<Rightarrow> byte list" where
  "slice_bytes st s = take (s_len s) (drop (s_off s) (st ! s_arr s))"

text \<open>\<open>make([]byte, n)\<close>: a fresh zeroed array of \<open>n\<close> bytes and a slice of all of it.\<close>

definition make_slice :: "store \<Rightarrow> nat \<Rightarrow> store \<times> slice" where
  "make_slice st n =
     (st @ [replicate n 0], \<lparr>s_arr = length st, s_off = 0, s_len = n, s_cap = n\<rparr>)"

text \<open>
  \<open>s[lo:hi]\<close> on a slice: Go requires \<open>0 \<le> lo \<le> hi \<le> cap(s)\<close> and panics otherwise.
\<close>

definition reslice :: "slice \<Rightarrow> int \<Rightarrow> int \<Rightarrow> panic + slice" where
  "reslice s lo hi =
     (if 0 \<le> lo \<and> lo \<le> hi \<and> hi \<le> int (s_cap s)
      then Inr \<lparr>s_arr = s_arr s, s_off = s_off s + nat lo,
                s_len = nat (hi - lo), s_cap = s_cap s - nat lo\<rparr>
      else Inl SliceBoundsOutOfRange)"

text \<open>\<open>s[i] = v\<close>: the store after the assignment, or the panic.\<close>

definition index_set :: "store \<Rightarrow> slice \<Rightarrow> int \<Rightarrow> byte \<Rightarrow> panic + store" where
  "index_set st s i v =
     (if 0 \<le> i \<and> i < int (s_len s)
      then Inr (st[s_arr s := (st ! s_arr s)[s_off s + nat i := v]])
      else Inl IndexOutOfRange)"

text \<open>
  The built-in \<open>copy(dst, src)\<close> writes the first \<open>min(len(dst), len(src))\<close> source
  elements over the start of \<open>dst\<close> and never panics. The source elements are given as
  values, read before anything is written (\<open>copy\<close> is correct for overlapping slices).
  The number of elements copied, which \<open>frames.go\<close> always discards, is not returned.
\<close>

definition copy_bytes :: "store \<Rightarrow> slice \<Rightarrow> byte list \<Rightarrow> store" where
  "copy_bytes st dst vals =
     (let n = min (s_len dst) (length vals); a = st ! s_arr dst
      in st[s_arr dst := take (s_off dst) a @ take n vals @ drop (s_off dst + n) a])"

section \<open>The frame codec of \<open>frames.go\<close>\<close>

subsection \<open>Accessors\<close>

text \<open>\<open>Header\<close>: \<open>return f[:2]\<close>.\<close>

definition Header :: "slice \<Rightarrow> panic + slice" where
  "Header f = reslice f 0 2"

text \<open>\<open>LenData\<close>: \<open>return int(f[2])\<close>.\<close>

definition LenData :: "byte list \<Rightarrow> panic + int" where
  "LenData f = pbind (index f 2) (\<lambda>b. Inr (uint b))"

text \<open>
  \<open>Data\<close>: \<open>headerLength := len(f.Header()); begin := headerLength + 2;
  end := begin + f.LenData(); return f[begin:end]\<close>.
\<close>

definition Data :: "store \<Rightarrow> slice \<Rightarrow> panic + slice" where
  "Data st f =
     pbind (Header f) (\<lambda>h.
     let headerLength = int (s_len h); begin = headerLength + 2 in
     pbind (LenData (slice_bytes st f)) (\<lambda>n.
     let end = begin + n in
     reslice f begin end))"

text \<open>\<open>Checksum\<close>: \<open>return f[len(f)-1]\<close>.\<close>

definition Checksum :: "byte list \<Rightarrow> panic + byte" where
  "Checksum f = index f (int (length f) - 1)"

subsection \<open>The checksum\<close>

text \<open>
  \<open>CalculateChecksum\<close>: \<open>crc = frame[0]; for i := 1; i < len(frame)-1; i++ { crc ^= frame[i] }\<close>.
  \<open>crc_loop\<close> is the loop, entered with the current \<open>i\<close> and \<open>crc\<close>.
\<close>

function crc_loop :: "byte list \<Rightarrow> nat \<Rightarrow> byte \<Rightarrow> panic + byte" where
  "crc_loop frame i crc =
     (if int i < int (length frame) - 1
      then pbind (index frame (int i)) (\<lambda>b. crc_loop frame (i + 1) (crc XOR b))
      else Inr crc)"
  by pat_completeness auto
termination
  by (relation "measure (\<lambda>(frame, i, crc). length frame - i)") auto

declare crc_loop.simps [simp del]

definition CalculateChecksum :: "byte list \<Rightarrow> panic + byte" where
  "CalculateChecksum frame = pbind (index frame 0) (\<lambda>crc. crc_loop frame 1 crc)"

subsection \<open>Validation\<close>

text \<open>
  \<open>Verify\<close>, check by check in the source's order. \<open>0x41\<close>, \<open>0x5A\<close>, \<open>0x30\<close>, \<open>0x39\<close>,
  \<open>0x2B\<close> and \<open>0x23\<close> are the character literals \<open>'A'\<close>, \<open>'Z'\<close>, \<open>'0'\<close>, \<open>'9'\<close>, \<open>'+'\<close>
  and \<open>'#'\<close>.
\<close>

definition Verify :: "byte list \<Rightarrow> panic + bool" where
  "Verify frame =
     pbind (index frame 0) (\<lambda>first.
     let valid1 = ((first > 0x41 \<and> first < 0x5A) \<or> (first > 0x30 \<and> first < 0x39)) in
     if \<not> valid1 then Inr False else
     pbind (index frame 1) (\<lambda>second.
     let valid2 = ((second > 0x41 \<and> second < 0x5A) \<or> (second > 0x30 \<and> second < 0x39)) in
     if \<not> valid2 then Inr False else
     pbind (index frame 2) (\<lambda>b2.
     pbind (LenData frame) (\<lambda>n.
     if b2 \<noteq> word_of_int n then Inr False else
     pbind (index frame 3) (\<lambda>b3.
     if b3 \<noteq> 0x2B then Inr False else
     pbind (index frame (int (length frame) - 2)) (\<lambda>bh.
     if bh \<noteq> 0x23 then Inr False else
     pbind (CalculateChecksum frame) (\<lambda>checksum.
     pbind (Checksum frame) (\<lambda>c.
     Inr (checksum = c)))))))))"

subsection \<open>Constructors\<close>

text \<open>
  \<open>Create\<close>. The parameter \<open>header [2]byte\<close> is an array passed by value, hence a pair
  of bytes and \<open>len(header) = 2\<close>; \<open>data\<close> is a slice in the caller's store. The result
  is the store after the call and the new frame's slice header.
\<close>

definition Create :: "store \<Rightarrow> byte \<times> byte \<Rightarrow> slice \<Rightarrow> panic + (store \<times> slice)" where
  "Create st header data =
     (let (st1, frame) = make_slice st (2 + 1 + 1 + s_len data + 2) in
      pbind (reslice frame 0 2) (\<lambda>dst.
      let st2 = copy_bytes st1 dst [fst header, snd header] in
      pbind (index_set st2 frame 2 (word_of_nat (s_len data))) (\<lambda>st3.
      pbind (index_set st3 frame (2 + 1) 0x2B) (\<lambda>st4.
      pbind (reslice frame (2 + 2) (int (s_len frame) - 2)) (\<lambda>dst2.
      let st5 = copy_bytes st4 dst2 (slice_bytes st4 data) in
      pbind (index_set st5 frame (int (s_len frame) - 2) 0x23) (\<lambda>st6.
      pbind (CalculateChecksum (slice_bytes st6 frame)) (\<lambda>crc.
      pbind (index_set st6 frame (int (s_len frame) - 1) crc) (\<lambda>st7.
      Inr (st7, frame)))))))))"

text \<open>
  \<open>Recreate\<close>: \<open>frame = make(Frame, len(buf)); copy(frame[:], buf[:]); return\<close>.
\<close>

definition Recreate :: "store \<Rightarrow> slice \<Rightarrow> panic + (store \<times> slice)" where
  "Recreate st buf =
     (let (st1, frame) = make_slice st (s_len buf) in
      pbind (reslice frame 0 (int (s_len frame))) (\<lambda>dst.
      pbind (reslice buf 0 (int (s_len buf))) (\<lambda>src.
      Inr (copy_bytes st1 dst (slice_bytes st1 src), frame))))"

text \<open>The bytes of the frame a constructor returned, read in the store it returned.\<close>

definition frame_bytes :: "panic + (store \<times> slice) \<Rightarrow> panic + byte list" where
  "frame_bytes r = pbind r (\<lambda>(st, f). Inr (slice_bytes st f))"

section \<open>Basic facts\<close>

lemma pbind_Inr [simp]: "pbind (Inr x) k = k x"
  by (simp add: pbind_def)

lemma pbind_Inl [simp]: "pbind (Inl e) k = Inl e"
  by (simp add: pbind_def)

lemma index_in_range: "i < length f \<Longrightarrow> index f (int i) = Inr (f ! i)"
  by (simp add: index_def)

subsection \<open>The checksum loop computes an exclusive-or fold\<close>

lemma crc_loop_foldl:
  "crc_loop f i crc = Inr (foldl (XOR) crc (map ((!) f) [i..<length f - 1]))"
proof (induction f i crc rule: crc_loop.induct)
  case (1 frame i crc)
  show ?case
  proof (cases "int i < int (length frame) - 1")
    case True
    then have lt: "i < length frame - 1" and lt': "i < length frame" by linarith+
    have "crc_loop frame i crc = crc_loop frame (i + 1) (crc XOR frame ! i)"
      using True lt' by (subst crc_loop.simps) (simp add: index_in_range)
    also have "\<dots> = Inr (foldl (XOR) (crc XOR frame ! i)
                            (map ((!) frame) [i + 1..<length frame - 1]))"
      using "1.IH" [OF True, of "frame ! i"] .
    also have "\<dots> = Inr (foldl (XOR) crc (map ((!) frame) [i..<length frame - 1]))"
      using lt by (simp add: upt_conv_Cons)
    finally show ?thesis .
  next
    case False
    then have "length frame - 1 \<le> i" by linarith
    with False show ?thesis by (subst crc_loop.simps) simp
  qed
qed

lemma CalculateChecksum_foldl:
  "f \<noteq> [] \<Longrightarrow>
   CalculateChecksum f = Inr (foldl (XOR) (f ! 0) (map ((!) f) [1..<length f - 1]))"
  by (simp add: CalculateChecksum_def index_def crc_loop_foldl)

lemma foldl_xor_fold: "foldl (XOR) (a::byte) xs = fold (XOR) xs a"
  by (induction xs arbitrary: a) (simp_all add: xor.commute)

lemma map_nth_butlast: "map ((!) f) [0..<length f - 1] = butlast f"
  by (rule nth_equalityI) (simp_all add: nth_butlast)

lemma CalculateChecksum_fold:
  assumes "2 \<le> length f"
  shows "CalculateChecksum f = Inr (fold (XOR) (butlast f) 0)"
proof -
  have ne: "f \<noteq> []" using assms by auto
  have "[0..<length f - 1] = 0 # [1..<length f - 1]"
    using assms by (simp add: upt_conv_Cons)
  then have "butlast f = f ! 0 # map ((!) f) [1..<length f - 1]"
    using map_nth_butlast [of f] by simp
  then show ?thesis
    by (simp add: CalculateChecksum_foldl [OF ne] foldl_xor_fold)
qed

lemma xor_comp_commute: "(XOR) (x::byte) \<circ> (XOR) y = (XOR) y \<circ> (XOR) x"
  by (rule ext) (simp add: xor.left_commute)

subsection \<open>What \<open>Verify\<close> computes once every index it reads is in range\<close>

lemma Verify_long:
  assumes "4 \<le> length f"
  shows "Verify f =
     Inr (((0x41 < f ! 0 \<and> f ! 0 < 0x5A) \<or> (0x30 < f ! 0 \<and> f ! 0 < 0x39)) \<and>
          ((0x41 < f ! 1 \<and> f ! 1 < 0x5A) \<or> (0x30 < f ! 1 \<and> f ! 1 < 0x39)) \<and>
          f ! 3 = 0x2B \<and> f ! (length f - 2) = 0x23 \<and>
          foldl (XOR) (f ! 0) (map ((!) f) [1..<length f - 1]) = f ! (length f - 1))"
proof -
  have ne: "f \<noteq> []" using assms by auto
  have i2: "nat (int (length f) - 2) = length f - 2"
    and i1: "nat (int (length f) - 1) = length f - 1"
    by simp_all
  show ?thesis
    using assms ne
    by (simp add: Verify_def LenData_def Checksum_def index_def Let_def i1 i2
        CalculateChecksum_foldl [OF ne])
qed

lemma Verify_short:
  assumes "length f < 4"
  shows "Verify f \<noteq> Inr True"
  using assms
  by (simp add: Verify_def LenData_def index_def Let_def pbind_def)

lemma Verify_True_length: "Verify f = Inr True \<Longrightarrow> 4 \<le> length f"
  using Verify_short [of f] by (cases "length f < 4") simp_all

subsection \<open>Slices of a store\<close>

lemma length_slice_bytes: "valid_slice st s \<Longrightarrow> length (slice_bytes st s) = s_len s"
  by (auto simp add: valid_slice_def slice_bytes_def)

lemma slice_bytes_append:
  "valid_slice st s \<Longrightarrow> slice_bytes (st @ [a]) s = slice_bytes st s"
  by (auto simp add: valid_slice_def slice_bytes_def nth_append)

lemma slice_bytes_fresh:
  "length a = n \<Longrightarrow>
   slice_bytes (st @ [a]) \<lparr>s_arr = length st, s_off = 0, s_len = n, s_cap = n\<rparr> = a"
  by (simp add: slice_bytes_def)

lemma index_set_fresh:
  "i < n \<Longrightarrow>
   index_set (st @ [a]) \<lparr>s_arr = length st, s_off = 0, s_len = n, s_cap = c\<rparr> (int i) v
     = Inr (st @ [a[i := v]])"
  by (simp add: index_set_def)

lemma copy_bytes_fresh:
  "copy_bytes (st @ [a]) \<lparr>s_arr = length st, s_off = k, s_len = l, s_cap = c\<rparr> vals
     = st @ [take k a @ take (min l (length vals)) vals @ drop (k + min l (length vals)) a]"
  by (simp add: copy_bytes_def Let_def)

lemma copy_window:
  "length xs = k \<Longrightarrow> length ys = length d \<Longrightarrow>
   take k (xs @ ys @ zs) @ take (min (length d) (length d)) d @ drop (k + min (length d) (length d)) (xs @ ys @ zs)
     = xs @ d @ zs"
  by simp

lemma Create_result:
  assumes v: "valid_slice st data"
  shows "Create st (h1, h2) data =
     Inr (st @ [[h1, h2, word_of_nat (s_len data), 0x2B] @ slice_bytes st data @
                [0x23, fold (XOR) ([h1, h2, word_of_nat (s_len data), 0x2B] @ slice_bytes st data @ [0x23]) 0]],
          \<lparr>s_arr = length st, s_off = 0, s_len = 6 + s_len data, s_cap = 6 + s_len data\<rparr>)"
proof -
  define n where "n = s_len data"
  define d where "d = slice_bytes st data"
  define lb :: byte where "lb = word_of_nat n"
  define frame where "frame = \<lparr>s_arr = length st, s_off = 0, s_len = 6 + n, s_cap = 6 + n\<rparr>"
  have ld: "length d = n" using v by (simp add: d_def n_def length_slice_bytes)
  have mk: "make_slice st (2 + 1 + 1 + s_len data + 2) = (st @ [replicate (6 + n) 0], frame)"
    by (simp add: make_slice_def frame_def n_def)
  have r1: "reslice frame 0 2 = Inr \<lparr>s_arr = length st, s_off = 0, s_len = 2, s_cap = 6 + n\<rparr>"
    by (simp add: reslice_def frame_def)
  have "replicate (6 + n) (0::byte) = replicate (4 + (n + 2)) 0"
    by simp
  also have "\<dots> = replicate 4 0 @ replicate n 0 @ replicate 2 0"
    by (simp only: replicate_add)
  also have "\<dots> = [0, 0, 0, 0] @ replicate n 0 @ [0, 0]"
    by (simp add: numeral_eq_Suc)
  finally have a0: "replicate (6 + n) (0::byte) = [0, 0, 0, 0] @ replicate n 0 @ [0, 0]" .
  have s2: "copy_bytes (st @ [replicate (6 + n) 0]) \<lparr>s_arr = length st, s_off = 0, s_len = 2, s_cap = 6 + n\<rparr> [h1, h2]
            = st @ [[h1, h2, 0, 0] @ replicate n 0 @ [0, 0]]"
    by (simp add: copy_bytes_fresh a0)
  have s3: "index_set (st @ [[h1, h2, 0, 0] @ replicate n 0 @ [0, 0]]) frame 2 lb
            = Inr (st @ [[h1, h2, lb, 0] @ replicate n 0 @ [0, 0]])"
    using index_set_fresh [of 2 "6 + n" st _ "6 + n" lb] by (simp add: frame_def numeral_2_eq_2)
  have s4: "index_set (st @ [[h1, h2, lb, 0] @ replicate n 0 @ [0, 0]]) frame (2 + 1) 0x2B
            = Inr (st @ [[h1, h2, lb, 0x2B] @ replicate n 0 @ [0, 0]])"
    using index_set_fresh [of 3 "6 + n" st _ "6 + n" "0x2B"] by (simp add: frame_def numeral_3_eq_3)
  have r2: "reslice frame (2 + 2) (int (s_len frame) - 2) = Inr \<lparr>s_arr = length st, s_off = 4, s_len = n, s_cap = 2 + n\<rparr>"
    by (simp add: reslice_def frame_def)
  have sb: "slice_bytes (st @ [a]) data = d" for a
    using v by (simp add: slice_bytes_append d_def)
  have s5: "copy_bytes (st @ [[h1, h2, lb, 0x2B] @ replicate n 0 @ [0, 0]]) \<lparr>s_arr = length st, s_off = 4, s_len = n, s_cap = 2 + n\<rparr> d
            = st @ [[h1, h2, lb, 0x2B] @ d @ [0, 0]]"
    using copy_window [of "[h1, h2, lb, 0x2B]" 4 "replicate n 0" d "[0, 0]"]
    by (simp add: copy_bytes_fresh ld)
  have s6: "index_set (st @ [[h1, h2, lb, 0x2B] @ d @ [0, 0]]) frame (int (s_len frame) - 2) 0x23
            = Inr (st @ [[h1, h2, lb, 0x2B] @ d @ [0x23, 0]])"
    using index_set_fresh [of "4 + n" "6 + n" st "[h1, h2, lb, 0x2B] @ d @ [0, 0]" "6 + n" "0x23"] ld
    by (simp add: frame_def list_update_append)
  have fb: "slice_bytes (st @ [[h1, h2, lb, 0x2B] @ d @ [0x23, 0]]) frame = [h1, h2, lb, 0x2B] @ d @ [0x23, 0]"
    unfolding frame_def by (rule slice_bytes_fresh) (simp add: ld)
  have bl: "butlast ([h1, h2, lb, 0x2B] @ d @ [0x23, 0]) = [h1, h2, lb, 0x2B] @ d @ [0x23]"
    by (simp add: butlast_append)
  have crc: "CalculateChecksum ([h1, h2, lb, 0x2B] @ d @ [0x23, 0]) = Inr (fold (XOR) ([h1, h2, lb, 0x2B] @ d @ [0x23]) 0)"
    using CalculateChecksum_fold [of "[h1, h2, lb, 0x2B] @ d @ [0x23, 0]"] bl by simp
  have s7: "index_set (st @ [[h1, h2, lb, 0x2B] @ d @ [0x23, 0]]) frame (int (s_len frame) - 1) c
            = Inr (st @ [[h1, h2, lb, 0x2B] @ d @ [0x23, c]])" for c
    using index_set_fresh [of "5 + n" "6 + n" st "[h1, h2, lb, 0x2B] @ d @ [0x23, 0]" "6 + n" c] ld
    by (simp add: frame_def list_update_append)
  have "Create st (h1, h2) data = Inr (st @ [[h1, h2, lb, 0x2B] @ d @ [0x23, fold (XOR) ([h1, h2, lb, 0x2B] @ d @ [0x23]) 0]], frame)"
    unfolding Create_def mk
    by (simp only: prod.case r1 pbind_Inr Let_def fst_conv snd_conv s2 n_def[symmetric] lb_def[symmetric] s3 s4 r2 sb s5 s6 fb crc s7)
  then show ?thesis
    by (simp add: lb_def n_def d_def frame_def)
qed

lemma Recreate_result:
  assumes v: "valid_slice st buf"
  shows "Recreate st buf =
     Inr (st @ [slice_bytes st buf],
          \<lparr>s_arr = length st, s_off = 0, s_len = s_len buf, s_cap = s_len buf\<rparr>)"
proof -
  define n where "n = s_len buf"
  define d where "d = slice_bytes st buf"
  have ld: "length d = n" using v by (simp add: d_def n_def length_slice_bytes)
  have le: "s_len buf \<le> s_cap buf" using v by (simp add: valid_slice_def)
  have src: "reslice buf 0 (int (s_len buf)) = Inr buf"
    using le by (simp add: reslice_def)
  have mk: "make_slice st (s_len buf) =
      (st @ [replicate n 0], \<lparr>s_arr = length st, s_off = 0, s_len = n, s_cap = n\<rparr>)"
    by (simp add: make_slice_def n_def)
  have dst: "reslice \<lparr>s_arr = length st, s_off = 0, s_len = n, s_cap = n\<rparr>
      0 (int (s_len \<lparr>s_arr = length st, s_off = 0, s_len = n, s_cap = n\<rparr>))
      = Inr \<lparr>s_arr = length st, s_off = 0, s_len = n, s_cap = n\<rparr>"
    by (simp add: reslice_def)
  have sb: "slice_bytes (st @ [a]) buf = d" for a
    using v by (simp add: slice_bytes_append d_def)
  have cp: "copy_bytes (st @ [replicate n 0]) \<lparr>s_arr = length st, s_off = 0, s_len = n, s_cap = n\<rparr> d
      = st @ [d]"
    by (simp add: copy_bytes_fresh ld)
  have "Recreate st buf = Inr (st @ [d], \<lparr>s_arr = length st, s_off = 0, s_len = n, s_cap = n\<rparr>)"
    unfolding Recreate_def mk
    by (simp only: Let_def prod.case dst src pbind_Inr sb cp)
  then show ?thesis
    by (simp add: n_def d_def)
qed

lemma index_set_old_array:
  assumes "valid_slice st s" and "index_set (st @ [a]) s i v = Inr st''"
  shows "\<exists>st0. st'' = st0 @ [a] \<and> length st0 = length st"
proof -
  from assms(2) have r: "0 \<le> i" "i < int (s_len s)"
    and eq: "st'' = (st @ [a])[s_arr s := ((st @ [a]) ! s_arr s)[s_off s + nat i := v]]"
    by (auto simp add: index_set_def split: if_splits)
  from r assms(1) have "s_arr s < length st"
    by (auto simp add: valid_slice_def)
  then have "st'' = st[s_arr s := (st ! s_arr s)[s_off s + nat i := v]] @ [a]"
    by (simp add: eq list_update_append nth_append)
  then show ?thesis by simp
qed

lemma uint_len_byte: "uint (word_of_nat n :: byte) = int (n mod 256)"
proof -
  have "unat (word_of_nat n :: byte) = n mod 256"
    by (simp add: unat_of_nat)
  then show ?thesis
    by (simp only: uint_nat)
qed

lemma LenData_nth: "3 \<le> length f \<Longrightarrow> LenData f = Inr (uint (f ! 2))"
  by (simp add: LenData_def index_def)

lemma fold_xor_replicate_0: "fold (XOR) (replicate n (0::byte)) a = a"
  by (induction n) simp_all

lemma foldl_fold_checksum:
  assumes "2 \<le> length (f :: byte list)"
  shows "foldl (XOR) (f ! 0) (map ((!) f) [1..<length f - 1]) = fold (XOR) (butlast f) 0"
proof -
  have "f \<noteq> []" using assms by auto
  then show ?thesis
    using CalculateChecksum_foldl [of f] CalculateChecksum_fold [OF assms] by simp
qed

text \<open>
  The round trip through \<open>Create\<close> for data of at most 255 bytes and a header whose
  two bytes pass the header test of \<open>Verify\<close> as it is written (strictly between
  \<open>'A'\<close> and \<open>'Z'\<close>, or strictly between \<open>'0'\<close> and \<open>'9'\<close>).
\<close>

lemma Create_round_trip_strict_header:
  assumes v: "valid_slice st data" and n: "s_len data \<le> 255"
    and h1: "(0x41 < h1 \<and> h1 < 0x5A) \<or> (0x30 < h1 \<and> h1 < 0x39)"
    and h2: "(0x41 < h2 \<and> h2 < 0x5A) \<or> (0x30 < h2 \<and> h2 < 0x39)"
  shows "\<exists>st' frame. Create st (h1, h2) data = Inr (st', frame) \<and>
           Verify (slice_bytes st' frame) = Inr True \<and>
           (\<exists>hs. Header frame = Inr hs \<and> slice_bytes st' hs = [h1, h2]) \<and>
           (\<exists>ds. Data st' frame = Inr ds \<and> slice_bytes st' ds = slice_bytes st data) \<and>
           LenData (slice_bytes st' frame) = Inr (int (s_len data))"
proof -
  define d where "d = slice_bytes st data"
  define pre where "pre = [h1, h2, word_of_nat (s_len data), 0x2B] @ d @ [0x23]"
  define l where "l = pre @ [fold (XOR) pre 0]"
  define frame where
    "frame = \<lparr>s_arr = length st, s_off = 0, s_len = 6 + s_len data, s_cap = 6 + s_len data\<rparr>"
  define hs where "hs = \<lparr>s_arr = length st, s_off = 0, s_len = 2, s_cap = 6 + s_len data\<rparr>"
  define ds where
    "ds = \<lparr>s_arr = length st, s_off = 4, s_len = s_len data, s_cap = 2 + s_len data\<rparr>"
  have ld: "length d = s_len data"
    unfolding d_def using v by (rule length_slice_bytes)
  have lp: "length pre = 5 + s_len data" by (simp add: pre_def ld)
  have ll: "length l = 6 + s_len data" by (simp add: l_def lp)
  have cr: "Create st (h1, h2) data = Inr (st @ [l], frame)"
    using Create_result [OF v, of h1 h2] by (simp add: l_def pre_def d_def frame_def)
  have fb: "slice_bytes (st @ [l]) frame = l"
    unfolding frame_def using ll by (rule slice_bytes_fresh)
  have nths: "l ! 0 = h1" "l ! 1 = h2" "l ! 2 = word_of_nat (s_len data)" "l ! 3 = 0x2B"
    by (simp_all add: l_def pre_def)
  have hash: "l ! (length l - 2) = 0x23"
  proof -
    have "l ! (4 + s_len data) = (([h1, h2, word_of_nat (s_len data), 0x2B] @ d) @ [0x23, fold (XOR) pre 0]) ! (length ([h1, h2, word_of_nat (s_len data), 0x2B] @ d))"
      by (simp add: l_def pre_def ld)
    also have "\<dots> = 0x23" by (simp only: nth_append_length)
    finally show ?thesis by (simp add: ll)
  qed
  have bl: "butlast l = pre" by (simp add: l_def)
  have lst: "l ! (length l - 1) = fold (XOR) (butlast l) 0"
    using nth_append_length [of pre "fold (XOR) pre 0" "[]"] by (simp add: bl l_def)
  have len4: "4 \<le> length l" and len2: "2 \<le> length l" using ll by simp_all
  have ck: "foldl (XOR) h1 (map ((!) l) [1..<length l - 1]) = l ! (length l - 1)"
    using foldl_fold_checksum [OF len2] lst nths(1) by simp
  have ver: "Verify l = Inr True"
    by (simp only: Verify_long [OF len4] nths hash ck) (use h1 h2 in simp)
  have lenb: "LenData l = Inr (int (s_len data))"
    using n ll by (simp add: LenData_nth nths uint_len_byte)
  have hd: "Header frame = Inr hs"
    by (simp add: Header_def reslice_def frame_def hs_def)
  have hb: "slice_bytes (st @ [l]) hs = [h1, h2]"
    by (simp add: slice_bytes_def hs_def l_def pre_def)
  have dt: "Data (st @ [l]) frame = Inr ds"
    unfolding Data_def hd fb lenb by (simp add: reslice_def frame_def hs_def ds_def)
  have db: "slice_bytes (st @ [l]) ds = d"
    by (simp add: slice_bytes_def ds_def l_def pre_def ld)
  show ?thesis
    using cr fb ver hd hb dt db lenb by (simp add: d_def)
qed

section \<open>Claims about the checksum\<close>

text \<open>
  C4. \<open>CalculateChecksum\<close> of a frame of at least two bytes returns the exclusive-or of
  all its bytes except the last one: \<open>frame[0] XOR frame[1] XOR ... XOR frame[len-2]\<close>,
  written here as the left-to-right fold over the indices \<open>1 .. len-2\<close> started at
  \<open>frame[0]\<close>.
\<close>

theorem CalculateChecksum_xor_of_all_but_last:
  assumes "2 \<le> length frame"
  shows "CalculateChecksum frame =
     Inr (foldl (XOR) (frame ! 0) (map ((!) frame) [1..<length frame - 1]))"
proof -
  from assms have "frame \<noteq> []" by auto
  then show ?thesis by (rule CalculateChecksum_foldl)
qed

theorem CalculateChecksum_xor_of_all_but_last_witness:
  "2 \<le> length [0x4C, 0x44, 0x01, 0x2B, 0x41, 0x23, 0x40 :: byte] \<and>
   CalculateChecksum [0x4C, 0x44, 0x01, 0x2B, 0x41, 0x23, 0x40] = Inr 0x40"
proof -
  have h: "2 \<le> length [0x4C, 0x44, 0x01, 0x2B, 0x41, 0x23, 0x40 :: byte]" by simp
  have "foldl (XOR) ([0x4C, 0x44, 0x01, 0x2B, 0x41, 0x23, 0x40 :: byte] ! 0)
          (map ((!) [0x4C, 0x44, 0x01, 0x2B, 0x41, 0x23, 0x40])
             [1..<length [0x4C, 0x44, 0x01, 0x2B, 0x41, 0x23, 0x40 :: byte] - 1]) = 0x40"
    by code_simp
  with h CalculateChecksum_xor_of_all_but_last [OF h] show ?thesis by simp
qed

text \<open>
  C8, as stated, fails for frames of one byte: there the loop never runs and the result
  is \<open>frame[0]\<close>, which is the final byte itself. \<open>[1]\<close> and \<open>[2]\<close> have equal length
  and the same (empty) multiset of non-final bytes, yet different checksums.
\<close>

theorem CalculateChecksum_one_byte_frames_differ:
  "length [1 :: byte] = length [2 :: byte] \<and>
   mset (butlast [1 :: byte]) = mset (butlast [2 :: byte]) \<and>
   CalculateChecksum [1] = Inr 1 \<and> CalculateChecksum [2] = Inr 2 \<and> (1 :: byte) \<noteq> 2"
  by (simp add: CalculateChecksum_def index_def crc_loop.simps)

text \<open>
  C8, amended. For two frames of equal length at least 2 whose bytes before the final
  one form the same multiset, \<open>CalculateChecksum\<close> returns the same value on both
  (the exclusive-or of those bytes).
\<close>

theorem CalculateChecksum_permutation_invariant:
  assumes "2 \<le> length f" and "length f = length g"
    and "mset (butlast f) = mset (butlast g)"
  shows "CalculateChecksum f = CalculateChecksum g \<and>
         CalculateChecksum f = Inr (fold (XOR) (butlast f) 0)"
proof -
  from assms(1,2) have g: "2 \<le> length g" by simp
  have "fold (XOR) (butlast f) = fold (XOR) (butlast g)"
    using assms(3) by (rule fold_multiset_equiv [OF xor_comp_commute])
  then show ?thesis
    by (simp add: CalculateChecksum_fold [OF assms(1)] CalculateChecksum_fold [OF g])
qed

theorem CalculateChecksum_permutation_invariant_witness:
  "2 \<le> length [1, 2, 3, 9 :: byte] \<and> length [1, 2, 3, 9 :: byte] = length [3, 1, 2, 7 :: byte] \<and>
   mset (butlast [1, 2, 3, 9 :: byte]) = mset (butlast [3, 1, 2, 7 :: byte]) \<and>
   CalculateChecksum [1, 2, 3, 9] = CalculateChecksum [3, 1, 2, 7] \<and>
   CalculateChecksum [1, 2, 3, 9] = Inr 0"
proof -
  have a: "2 \<le> length [1, 2, 3, 9 :: byte]" by simp
  have b: "length [1, 2, 3, 9 :: byte] = length [3, 1, 2, 7 :: byte]" by simp
  have c: "mset (butlast [1, 2, 3, 9 :: byte]) = mset (butlast [3, 1, 2, 7 :: byte])" by simp
  have d: "fold (XOR) (butlast [1, 2, 3, 9 :: byte]) 0 = 0" by simp
  show ?thesis
    using CalculateChecksum_permutation_invariant [OF a b c] a b c d by auto
qed

section \<open>Claims about \<open>Verify\<close>\<close>

text \<open>
  C2. \<open>Verify\<close> has no length check: it reads \<open>frame[0]\<close> first. On the nil or empty
  buffer that read panics, and a two-byte buffer with an accepted header panics at
  \<open>frame[2]\<close>; so short buffers are not always answered with \<open>false\<close>. The four-byte
  buffer \<open>"BJ#+"\<close> is even accepted.
\<close>

theorem Verify_short_buffer_panics:
  "Verify [] = Inl IndexOutOfRange \<and> Verify [0x42, 0x4A] = Inl IndexOutOfRange \<and>
   Verify [0x42, 0x4A, 0x23, 0x2B] = Inr True"
  by code_simp

text \<open>
  C3. The length check of \<open>Verify\<close> compares \<open>frame[2]\<close> with \<open>byte(frame.LenData())\<close>,
  which is \<open>frame[2]\<close> again, so the declared length is never compared with the
  frame's size. The frame \<open>"MT" 6 "+dondu#" 0x63\<close> declares six data bytes, carries
  five (11 bytes in all, not 12), and is accepted.
\<close>

theorem Verify_accepts_wrong_length:
  "Verify [0x4D, 0x54, 0x06, 0x2B, 0x64, 0x6F, 0x6E, 0x64, 0x75, 0x23, 0x63] = Inr True \<and>
   LenData [0x4D, 0x54, 0x06, 0x2B, 0x64, 0x6F, 0x6E, 0x64, 0x75, 0x23, 0x63] = Inr 6 \<and>
   length [0x4D, 0x54, 0x06, 0x2B, 0x64, 0x6F, 0x6E, 0x64, 0x75, 0x23, 0x63 :: byte] = 11"
  by code_simp

text \<open>
  C7. On a frame that \<open>Verify\<close> accepts, overwriting the byte at offset 3 with any
  other value, or the byte at offset \<open>len-2\<close> with any other value, gives a frame that
  \<open>Verify\<close> rejects (it returns \<open>false\<close>; it does not panic).
\<close>

theorem Verify_rejects_corrupted_delimiter:
  assumes "Verify f = Inr True"
  shows "(v \<noteq> f ! 3 \<longrightarrow> Verify (f[3 := v]) = Inr False) \<and>
         (v \<noteq> f ! (length f - 2) \<longrightarrow> Verify (f[length f - 2 := v]) = Inr False)"
proof -
  have len: "4 \<le> length f" using assms by (rule Verify_True_length)
  have ok: "f ! 3 = 0x2B" "f ! (length f - 2) = 0x23"
    using assms by (simp_all add: Verify_long [OF len])
  have a: "Verify (f[3 := v]) = Inr False" if "v \<noteq> f ! 3"
    using that len ok(1) by (simp add: Verify_long)
  have b: "Verify (f[length f - 2 := v]) = Inr False" if "v \<noteq> f ! (length f - 2)"
    using that len ok(2) by (simp add: Verify_long)
  from a b show ?thesis by blast
qed

theorem Verify_rejects_corrupted_delimiter_witness:
  "Verify [0x4C, 0x44, 0x00, 0x2B, 0x23, 0x00] = Inr True \<and>
   (0x2A :: byte) \<noteq> [0x4C, 0x44, 0x00, 0x2B, 0x23, 0x00] ! 3 \<and>
   Verify ([0x4C, 0x44, 0x00, 0x2B, 0x23, 0x00][3 := 0x2A]) = Inr False \<and>
   (0x2A :: byte) \<noteq> [0x4C, 0x44, 0x00, 0x2B, 0x23, 0x00]
                         ! (length [0x4C, 0x44, 0x00, 0x2B, 0x23, 0x00 :: byte] - 2) \<and>
   Verify ([0x4C, 0x44, 0x00, 0x2B, 0x23, 0x00]
             [length [0x4C, 0x44, 0x00, 0x2B, 0x23, 0x00 :: byte] - 2 := 0x2A]) = Inr False"
proof -
  have h: "Verify [0x4C, 0x44, 0x00, 0x2B, 0x23, 0x00] = Inr True" by code_simp
  show ?thesis
    using Verify_rejects_corrupted_delimiter [OF h, of "0x2A"] h by simp
qed

text \<open>
  C10. The header check of \<open>Verify\<close> uses exclusive bounds. On a frame of at least six
  bytes, \<open>Verify\<close> returns \<open>false\<close> whenever one of the first two bytes is exactly
  \<open>'A'\<close>, \<open>'Z'\<close>, \<open>'0'\<close> or \<open>'9'\<close>; and whenever its answer is not the \<open>false\<close> of a failed
  check, each of the first two bytes lies strictly between \<open>'A'\<close> and \<open>'Z'\<close> or strictly
  between \<open>'0'\<close> and \<open>'9'\<close>. When both bytes do, the header check is passed and the
  answer is that of the remaining checks: the two delimiters and the checksum.
\<close>

theorem Verify_header_bounds_exclusive:
  assumes "6 \<le> length f"
  shows "((f ! 0 \<in> {0x41, 0x5A, 0x30, 0x39} \<or> f ! 1 \<in> {0x41, 0x5A, 0x30, 0x39})
            \<longrightarrow> Verify f = Inr False) \<and>
         (Verify f \<noteq> Inr False \<longrightarrow>
            ((0x41 < f ! 0 \<and> f ! 0 < 0x5A) \<or> (0x30 < f ! 0 \<and> f ! 0 < 0x39)) \<and>
            ((0x41 < f ! 1 \<and> f ! 1 < 0x5A) \<or> (0x30 < f ! 1 \<and> f ! 1 < 0x39))) \<and>
         (((0x41 < f ! 0 \<and> f ! 0 < 0x5A) \<or> (0x30 < f ! 0 \<and> f ! 0 < 0x39)) \<and>
          ((0x41 < f ! 1 \<and> f ! 1 < 0x5A) \<or> (0x30 < f ! 1 \<and> f ! 1 < 0x39)) \<longrightarrow>
            Verify f = Inr (f ! 3 = 0x2B \<and> f ! (length f - 2) = 0x23 \<and>
                            CalculateChecksum f = Checksum f))"
proof -
  have len: "4 \<le> length f" using assms by simp
  then have ne: "f \<noteq> []" by auto
  have "nat (int (length f) - 1) = length f - 1" by simp
  then have ck: "Checksum f = Inr (f ! (length f - 1))"
    using ne by (simp add: Checksum_def index_def)
  show ?thesis
    by (auto simp add: Verify_long [OF len] ck CalculateChecksum_foldl [OF ne])
qed

theorem Verify_header_bounds_exclusive_witness:
  "6 \<le> length [0x4C, 0x5A, 0x00, 0x2B, 0x23, 0x1E :: byte] \<and>
   [0x4C, 0x5A, 0x00, 0x2B, 0x23, 0x1E :: byte] ! 1 \<in> {0x41, 0x5A, 0x30, 0x39} \<and>
   Verify [0x4C, 0x5A, 0x00, 0x2B, 0x23, 0x1E] = Inr False \<and>
   6 \<le> length [0x4C, 0x44, 0x00, 0x2B, 0x23, 0x00 :: byte] \<and>
   Verify [0x4C, 0x44, 0x00, 0x2B, 0x23, 0x00] \<noteq> Inr False \<and>
   (0x41 :: byte) < [0x4C, 0x44, 0x00, 0x2B, 0x23, 0x00] ! 0 \<and>
   [0x4C, 0x44, 0x00, 0x2B, 0x23, 0x00] ! 0 < (0x5A :: byte) \<and>
   (0x41 :: byte) < [0x4C, 0x44, 0x00, 0x2B, 0x23, 0x00] ! 1 \<and>
   [0x4C, 0x44, 0x00, 0x2B, 0x23, 0x00] ! 1 < (0x5A :: byte) \<and>
   CalculateChecksum [0x4C, 0x44, 0x00, 0x2B, 0x23, 0x00]
     = Checksum [0x4C, 0x44, 0x00, 0x2B, 0x23, 0x00]"
proof -
  have a: "6 \<le> length [0x4C, 0x5A, 0x00, 0x2B, 0x23, 0x1E :: byte]" by simp
  have b: "6 \<le> length [0x4C, 0x44, 0x00, 0x2B, 0x23, 0x00 :: byte]" by simp
  have c: "Verify [0x4C, 0x44, 0x00, 0x2B, 0x23, 0x00] = Inr True" by code_simp
  show ?thesis
    using Verify_header_bounds_exclusive [OF a] Verify_header_bounds_exclusive [OF b] c
    by simp
qed

section \<open>Claims about \<open>Create\<close>\<close>

text \<open>
  C5. The literal scenarios. \<open>Create\<close> with header \<open>"LD"\<close> and no data gives
  \<open>4C 44 00 2B 23 00\<close>; with data \<open>"A"\<close> it gives \<open>4C 44 01 2B 41 23 40\<close>, checksum
  \<open>0x40\<close>; with data \<open>"test"\<close> the checksum is \<open>0x12\<close>; with header \<open>"MT"\<close> and data
  \<open>"dondu"\<close> the checksum is \<open>0x60\<close>. \<open>Verify\<close> accepts each of the four frames.
\<close>

theorem Create_literal_scenarios:
  "frame_bytes (Create [] (0x4C, 0x44) nil_slice) = Inr [0x4C, 0x44, 0x00, 0x2B, 0x23, 0x00] \<and>
   Verify [0x4C, 0x44, 0x00, 0x2B, 0x23, 0x00] = Inr True \<and>
   frame_bytes (Create [[0x41]] (0x4C, 0x44) \<lparr>s_arr = 0, s_off = 0, s_len = 1, s_cap = 1\<rparr>)
     = Inr [0x4C, 0x44, 0x01, 0x2B, 0x41, 0x23, 0x40] \<and>
   Checksum [0x4C, 0x44, 0x01, 0x2B, 0x41, 0x23, 0x40] = Inr 0x40 \<and>
   Verify [0x4C, 0x44, 0x01, 0x2B, 0x41, 0x23, 0x40] = Inr True \<and>
   frame_bytes (Create [[0x74, 0x65, 0x73, 0x74]] (0x4C, 0x44)
                  \<lparr>s_arr = 0, s_off = 0, s_len = 4, s_cap = 4\<rparr>)
     = Inr [0x4C, 0x44, 0x04, 0x2B, 0x74, 0x65, 0x73, 0x74, 0x23, 0x12] \<and>
   Checksum [0x4C, 0x44, 0x04, 0x2B, 0x74, 0x65, 0x73, 0x74, 0x23, 0x12] = Inr 0x12 \<and>
   Verify [0x4C, 0x44, 0x04, 0x2B, 0x74, 0x65, 0x73, 0x74, 0x23, 0x12] = Inr True \<and>
   frame_bytes (Create [[0x64, 0x6F, 0x6E, 0x64, 0x75]] (0x4D, 0x54)
                  \<lparr>s_arr = 0, s_off = 0, s_len = 5, s_cap = 5\<rparr>)
     = Inr [0x4D, 0x54, 0x05, 0x2B, 0x64, 0x6F, 0x6E, 0x64, 0x75, 0x23, 0x60] \<and>
   Checksum [0x4D, 0x54, 0x05, 0x2B, 0x64, 0x6F, 0x6E, 0x64, 0x75, 0x23, 0x60] = Inr 0x60 \<and>
   Verify [0x4D, 0x54, 0x05, 0x2B, 0x64, 0x6F, 0x6E, 0x64, 0x75, 0x23, 0x60] = Inr True"
  by code_simp

text \<open>
  C1. The round trip fails for headers that contain \<open>'A'\<close>, \<open>'Z'\<close>, \<open>'0'\<close> or \<open>'9'\<close>:
  \<open>Create\<close> with header \<open>"AA"\<close> and no data builds \<open>41 41 00 2B 23 08\<close>, which
  \<open>Verify\<close> rejects, although both header bytes are uppercase ASCII letters.
\<close>

theorem Create_header_AA_not_verified:
  "frame_bytes (Create [] (0x41, 0x41) nil_slice) = Inr [0x41, 0x41, 0x00, 0x2B, 0x23, 0x08] \<and>
   Verify [0x41, 0x41, 0x00, 0x2B, 0x23, 0x08] = Inr False"
  by code_simp

text \<open>
  C6, as stated, fails: \<open>Create\<close> checks no length. With 256 data bytes it returns a
  frame, with no failure of any kind, whose length byte is \<open>byte(256) = 0\<close>.
\<close>

theorem Create_256_bytes_succeeds:
  "frame_bytes (Create [replicate 256 0] (0x4C, 0x44)
                  \<lparr>s_arr = 0, s_off = 0, s_len = 256, s_cap = 256\<rparr>)
     = Inr ([0x4C, 0x44, 0x00, 0x2B] @ replicate 256 0 @ [0x23, 0x00]) \<and>
   LenData ([0x4C, 0x44, 0x00, 0x2B] @ replicate 256 0 @ [0x23, 0x00]) = Inr 0"
proof -
  have a: "valid_slice [replicate 256 0] \<lparr>s_arr = 0, s_off = 0, s_len = 256, s_cap = 256\<rparr>"
    by (simp add: valid_slice_def)
  have sb: "slice_bytes [replicate 256 0] \<lparr>s_arr = 0, s_off = 0, s_len = 256, s_cap = 256\<rparr>
      = replicate 256 0"
    by (simp add: slice_bytes_def)
  have cr: "Create [replicate 256 0] (0x4C, 0x44) \<lparr>s_arr = 0, s_off = 0, s_len = 256, s_cap = 256\<rparr>
      = Inr ([replicate 256 0] @ [[0x4C, 0x44, 0x00, 0x2B] @ replicate 256 0 @ [0x23, 0x00]],
             \<lparr>s_arr = 1, s_off = 0, s_len = 262, s_cap = 262\<rparr>)"
  proof -
    have lb: "(word_of_nat 256 :: byte) = 0" by simp
    have ck: "fold (XOR) ([0x4C, 0x44, 0x00, 0x2B] @ replicate 256 0 @ [0x23]) (0::byte) = 0"
      by (simp add: fold_xor_replicate_0 del: fold_replicate)
    have "Create [replicate 256 0] (0x4C, 0x44) \<lparr>s_arr = 0, s_off = 0, s_len = 256, s_cap = 256\<rparr>
      = Inr ([replicate 256 0] @ [[0x4C, 0x44, 0x00, 0x2B] @ replicate 256 0 @
               [0x23, fold (XOR) ([0x4C, 0x44, 0x00, 0x2B] @ replicate 256 0 @ [0x23]) 0]],
             \<lparr>s_arr = 1, s_off = 0, s_len = 262, s_cap = 262\<rparr>)"
      using Create_result [OF a, of "0x4C" "0x44"] unfolding sb
      by (simp only: slice.simps lb) simp
    then show ?thesis by (simp only: ck)
  qed
  have fb: "slice_bytes ([replicate 256 0] @ [[0x4C, 0x44, 0x00, 0x2B] @ replicate 256 0 @ [0x23, 0x00]])
             \<lparr>s_arr = 1, s_off = 0, s_len = 262, s_cap = 262\<rparr>
      = [0x4C, 0x44, 0x00, 0x2B] @ replicate 256 0 @ [0x23, 0x00]"
    using slice_bytes_fresh [of "[0x4C, 0x44, 0x00, 0x2B] @ replicate 256 0 @ [0x23, 0x00]" 262 "[replicate 256 0]"]
    by simp
  have ld: "LenData ([0x4C, 0x44, 0x00, 0x2B] @ replicate 256 0 @ [0x23, 0x00]) = Inr 0"
    by (simp add: LenData_nth)
  show ?thesis
    unfolding cr frame_bytes_def using fb ld by simp
qed

text \<open>
  C6, amended. \<open>Create\<close> never fails: for data of any length \<open>n\<close>, also \<open>n > 255\<close>, it
  returns a frame of \<open>6 + n\<close> bytes whose length byte is \<open>n mod 256\<close>. Keeping
  \<open>n \<le> 255\<close> is left to the caller (\<open>Data length must not overflow byte\<close>).
\<close>

theorem Create_wraps_length_byte:
  assumes "valid_slice st data"
  shows "\<exists>st' frame. Create st h data = Inr (st', frame) \<and>
           length (slice_bytes st' frame) = 6 + s_len data \<and>
           LenData (slice_bytes st' frame) = Inr (int (s_len data mod 256))"
proof -
  obtain h1 h2 where h: "h = (h1, h2)" by (cases h)
  define l where "l = [h1, h2, word_of_nat (s_len data), 0x2B] @ slice_bytes st data @
      [0x23, fold (XOR) ([h1, h2, word_of_nat (s_len data), 0x2B] @ slice_bytes st data @ [0x23]) 0]"
  define frame where
    "frame = \<lparr>s_arr = length st, s_off = 0, s_len = 6 + s_len data, s_cap = 6 + s_len data\<rparr>"
  have ld: "length (slice_bytes st data) = s_len data"
    using assms by (rule length_slice_bytes)
  have ll: "length l = 6 + s_len data" by (simp add: l_def ld)
  have fb: "slice_bytes (st @ [l]) frame = l"
    unfolding frame_def using ll by (rule slice_bytes_fresh)
  have l2: "l ! 2 = word_of_nat (s_len data)" by (simp add: l_def)
  have lenb: "LenData l = Inr (int (s_len data mod 256))"
    using ll by (simp add: LenData_nth l2 uint_len_byte)
  have cr: "Create st h data = Inr (st @ [l], frame)"
    unfolding h l_def frame_def using assms by (rule Create_result)
  show ?thesis
    using cr fb ll lenb by simp
qed

theorem Create_wraps_length_byte_witness:
  "valid_slice [replicate 300 0] \<lparr>s_arr = 0, s_off = 0, s_len = 300, s_cap = 300\<rparr> \<and>
   (\<exists>st' frame. Create [replicate 300 0] (0x4C, 0x44)
                    \<lparr>s_arr = 0, s_off = 0, s_len = 300, s_cap = 300\<rparr> = Inr (st', frame) \<and>
      length (slice_bytes st' frame) = 306 \<and>
      LenData (slice_bytes st' frame) = Inr 44)"
proof -
  have a: "valid_slice [replicate 300 0] \<lparr>s_arr = 0, s_off = 0, s_len = 300, s_cap = 300\<rparr>"
    by (simp add: valid_slice_def)
  show ?thesis
    using Create_wraps_length_byte [OF a, of "(0x4C, 0x44)"] a by simp
qed

section \<open>Claims about \<open>Recreate\<close>\<close>

text \<open>
  C9. \<open>Recreate\<close> returns a frame whose bytes equal the buffer's, in an array of its
  own: whatever slice \<open>s\<close> the caller held before the call (the buffer itself, or any
  other view of its array), an assignment \<open>s[i] = v\<close> made after the call leaves the
  frame's bytes as they were.
\<close>

theorem Recreate_copies_without_aliasing:
  assumes "valid_slice st buf" and "valid_slice st s"
  shows "\<exists>st' frame. Recreate st buf = Inr (st', frame) \<and>
           slice_bytes st' frame = slice_bytes st buf \<and>
           (\<forall>i v st''. index_set st' s i v = Inr st'' \<longrightarrow>
                        slice_bytes st'' frame = slice_bytes st buf)"
proof -
  let ?f = "\<lparr>s_arr = length st, s_off = 0, s_len = s_len buf, s_cap = s_len buf\<rparr>"
  let ?st' = "st @ [slice_bytes st buf]"
  have len: "length (slice_bytes st buf) = s_len buf"
    using assms(1) by (rule length_slice_bytes)
  have a: "slice_bytes ?st' ?f = slice_bytes st buf"
    using len by (rule slice_bytes_fresh)
  have b: "slice_bytes st'' ?f = slice_bytes st buf"
    if "index_set ?st' s i v = Inr st''" for i v st''
  proof -
    from index_set_old_array [OF assms(2) that] obtain st0
      where "st'' = st0 @ [slice_bytes st buf]" "length st0 = length st" by blast
    then show ?thesis using slice_bytes_fresh [OF len, of st0] by simp
  qed
  show ?thesis
    using Recreate_result [OF assms(1)] a b by blast
qed

theorem Recreate_copies_without_aliasing_witness:
  "valid_slice [[1, 2, 3]] \<lparr>s_arr = 0, s_off = 1, s_len = 2, s_cap = 2\<rparr> \<and>
   valid_slice [[1, 2, 3]] \<lparr>s_arr = 0, s_off = 0, s_len = 3, s_cap = 3\<rparr> \<and>
   Recreate [[1, 2, 3]] \<lparr>s_arr = 0, s_off = 1, s_len = 2, s_cap = 2\<rparr>
     = Inr ([[1, 2, 3], [2, 3]], \<lparr>s_arr = 1, s_off = 0, s_len = 2, s_cap = 2\<rparr>) \<and>
   index_set [[1, 2, 3], [2, 3]] \<lparr>s_arr = 0, s_off = 0, s_len = 3, s_cap = 3\<rparr> 1 9
     = Inr [[1, 9, 3], [2, 3]] \<and>
   slice_bytes [[1, 9, 3], [2, 3]] \<lparr>s_arr = 0, s_off = 1, s_len = 2, s_cap = 2\<rparr> = [9, 3] \<and>
   slice_bytes [[1, 9, 3], [2, 3]] \<lparr>s_arr = 1, s_off = 0, s_len = 2, s_cap = 2\<rparr> = [2, 3] \<and>
   slice_bytes [[1, 2, 3]] \<lparr>s_arr = 0, s_off = 1, s_len = 2, s_cap = 2\<rparr> = [2, 3]"
proof -
  have a: "valid_slice [[1, 2, 3]] \<lparr>s_arr = 0, s_off = 1, s_len = 2, s_cap = 2\<rparr>"
    by (simp add: valid_slice_def)
  have b: "valid_slice [[1, 2, 3]] \<lparr>s_arr = 0, s_off = 0, s_len = 3, s_cap = 3\<rparr>"
    by (simp add: valid_slice_def)
  have c: "Recreate [[1, 2, 3]] \<lparr>s_arr = 0, s_off = 1, s_len = 2, s_cap = 2\<rparr>
     = Inr ([[1, 2, 3], [2, 3]], \<lparr>s_arr = 1, s_off = 0, s_len = 2, s_cap = 2\<rparr>)"
    by code_simp
  have d: "index_set [[1, 2, 3], [2, 3]] \<lparr>s_arr = 0, s_off = 0, s_len = 3, s_cap = 3\<rparr> 1 9
     = Inr [[1, 9, 3], [2, 3]]"
    by code_simp
  have e: "slice_bytes [[1, 9, 3], [2, 3]] \<lparr>s_arr = 0, s_off = 1, s_len = 2, s_cap = 2\<rparr> = [9, 3]"
    by code_simp
  have f: "slice_bytes [[1, 2, 3]] \<lparr>s_arr = 0, s_off = 1, s_len = 2, s_cap = 2\<rparr> = [2, 3]"
    by code_simp
  from Recreate_copies_without_aliasing [OF a b] c d f
  have "slice_bytes [[1, 9, 3], [2, 3]] \<lparr>s_arr = 1, s_off = 0, s_len = 2, s_cap = 2\<rparr> = [2, 3]"
    by auto
  with a b c d e f show ?thesis by simp
qed

end
